theory Spec2Isabelle
  imports Complex_Main "HOL-Library.AList"
begin

section \<open>JavaScript primitives used by the converters\<close>

text \<open>
  Conventions of the embedding.
  \<^item> A JavaScript string is a \<open>string\<close>; a \<open>char\<close> stands for one code unit in the range
    U+0000..U+00FF. Strings with code units beyond that range are outside the model.
  \<^item> Numbers that the program only ever holds as integers (pixel sizes, the quality
    slider) are \<open>int\<close>; the aspect ratio, a quotient, is an exact \<open>rat\<close>. The rounding error
    of IEEE doubles is not modelled, and neither are \<open>NaN\<close> and the infinities: a theorem
    whose result depends on a quotient assumes the original dimensions positive.
  \<^item> An object URL is modelled by the content it refers to.
\<close>

definition digitChar :: "nat \<Rightarrow> char" where
  "digitChar d = ''0123456789'' ! d"

function toStringNat :: "nat \<Rightarrow> string" where
  "toStringNat n =
     (if n < 10 then [digitChar n] else toStringNat (n div 10) @ [digitChar (n mod 10)])"
  by pat_completeness auto
termination
  by (relation "measure (\<lambda>n. n)") auto

declare toStringNat.simps [simp del]

text \<open>\<open>Number.prototype.toString\<close> and template interpolation, on an integer.\<close>

definition toString :: "int \<Rightarrow> string" where
  "toString i = (if i < 0 then CHR ''-'' # toStringNat (nat (- i)) else toStringNat (nat i))"

text \<open>\<open>Math.round\<close> rounds to the nearest integer, a tie going up.\<close>

definition Math_round :: "rat \<Rightarrow> int" where
  "Math_round x = \<lfloor>x + 1 / 2\<rfloor>"

definition Math_floor :: "rat \<Rightarrow> int" where
  "Math_floor x = \<lfloor>x\<rfloor>"

text \<open>The white space that \<open>String.prototype.trim\<close> and \<open>parseInt\<close> strip, below U+0100.\<close>

definition isWhiteSpace :: "char \<Rightarrow> bool" where
  "isWhiteSpace c = (c \<in> set [CHR 0x09, CHR 0x0A, CHR 0x0B, CHR 0x0C, CHR 0x0D, CHR 0x20, CHR 0xA0])"

definition trim :: "string \<Rightarrow> string" where
  "trim s = rev (dropWhile isWhiteSpace (rev (dropWhile isWhiteSpace s)))"

text \<open>\<open>s.split(sep)\<close> for a one-character separator; the result is never empty.\<close>

fun split_str :: "char \<Rightarrow> string \<Rightarrow> string list" where
  "split_str sep [] = [[]]"
| "split_str sep (c # cs) =
     (if c = sep then [] # split_str sep cs
      else (case split_str sep cs of
              [] \<Rightarrow> [[c]]
            | p # ps \<Rightarrow> (c # p) # ps))"

text \<open>\<open>parts.join(sep)\<close>.\<close>

fun join_str :: "string \<Rightarrow> string list \<Rightarrow> string" where
  "join_str sep [] = []"
| "join_str sep [p] = p"
| "join_str sep (p # q # ps) = p @ sep @ join_str sep (q # ps)"

text \<open>The character class \<open>[a-zA-Z0-9-_]\<close> of the file name sanitizer.\<close>

definition isNameChar :: "char \<Rightarrow> bool" where
  "isNameChar c =
     (let n = (of_char c :: nat)
      in (97 \<le> n \<and> n \<le> 122) \<or> (65 \<le> n \<and> n \<le> 90) \<or> (48 \<le> n \<and> n \<le> 57)
         \<or> c = CHR ''-'' \<or> c = CHR ''_'')"

text \<open>\<open>s.replace(/[^a-zA-Z0-9-_]/g, '-')\<close>.\<close>

definition replaceNonNameChars :: "string \<Rightarrow> string" where
  "replaceNonNameChars s = map (\<lambda>c. if isNameChar c then c else CHR ''-'') s"




section \<open>The image converter: data\<close>

datatype Status = Idle | Processing | Done | Error

record File =
  name :: string
  content :: string

record Blob =
  blobData :: string
  blobType :: string

text \<open>
  \<open>interface ImageItem\<close>. The fields \<open>file\<close> and \<open>id\<close> are \<open>file_item\<close> and \<open>id_item\<close> here; \<open>preview\<close>, an object URL of
  \<open>file\<close>, is left out.
\<close>

record ImageItem =
  file_item :: File
  id_item :: string
  originalWidth :: int
  originalHeight :: int
  targetWidth :: int
  targetHeight :: int
  aspectRatio :: rat
  keyword :: string
  status :: Status
  outputUrl :: "Blob option"
  outputName :: "string option"

section \<open>The image converter: planning the engine arguments\<close>

text \<open>The quality of the JPEG family, line 167 of \<open>convertImages\<close>.\<close>

definition jpegQuality :: "int \<Rightarrow> int" where
  "jpegQuality quality = max 2 (Math_floor (31 - (of_int ((quality - 1) * 29) / 99)))"

text \<open>The test \<open>img.keyword && img.keyword.trim() !== ""\<close>.\<close>

definition hasKeyword :: "ImageItem \<Rightarrow> bool" where
  "hasKeyword img = (keyword img \<noteq> [] \<and> trim (keyword img) \<noteq> [])"

definition metaTags :: "string list" where
  "metaTags = [''title'', ''description'', ''comment'', ''author'', ''copyright'', ''ICRD'']"

definition inputName :: "ImageItem \<Rightarrow> string" where
  "inputName img = ''input_'' @ id_item img"

definition outputFile :: "ImageItem \<Rightarrow> string \<Rightarrow> string" where
  "outputFile img outputFormat = ''output_'' @ id_item img @ ''.'' @ outputFormat"

definition resizeArgs :: "ImageItem \<Rightarrow> string list" where
  "resizeArgs img =
     (if targetWidth img \<noteq> originalWidth img \<or> targetHeight img \<noteq> originalHeight img
      then [''-vf'', ''scale='' @ toString (targetWidth img) @ '':'' @ toString (targetHeight img)]
      else [])"

definition qualityArgs :: "string \<Rightarrow> int \<Rightarrow> string list" where
  "qualityArgs outputFormat quality =
     (if outputFormat = ''jpg'' \<or> outputFormat = ''jpeg'' then [''-q:v'', toString (jpegQuality quality)]
      else if outputFormat = ''webp'' then [''-quality'', toString quality]
      else [])"

definition metadataArgs :: "ImageItem \<Rightarrow> string list" where
  "metadataArgs img =
     (if hasKeyword img
      then concat (map (\<lambda>tag. [''-metadata'', tag @ ''='' @ keyword img]) metaTags)
      else [])"

text \<open>The argument list built in lines 153 to 182 of \<open>convertImages\<close>.\<close>

definition imageArgs :: "ImageItem \<Rightarrow> string \<Rightarrow> int \<Rightarrow> string list" where
  "imageArgs img outputFormat quality =
     [''-i'', inputName img] @ resizeArgs img @ qualityArgs outputFormat quality
       @ metadataArgs img @ [outputFile img outputFormat]"

section \<open>The engine adapter\<close>

text \<open>
  Modelled from the spec: the engine adapter (\<open>writeFile\<close>, \<open>readFile\<close>, \<open>deleteFile\<close>, \<open>exec\<close> of
  the embedded media engine) is an external library, absent from the sources. Its virtual
  file system is a map from file names to contents. Writing stores a file, deleting
  removes it, reading a file that is not there throws (\<open>None\<close>). What \<open>exec\<close> does is a
  parameter of the model: a function from the argument list and the file system to the
  file system it leaves, or \<open>None\<close> when the invocation throws.
\<close>

type_synonym vfs = "string \<rightharpoonup> string"

type_synonym engine = "string list \<Rightarrow> vfs \<Rightarrow> vfs option"

definition writeFile :: "string \<Rightarrow> string \<Rightarrow> vfs \<Rightarrow> vfs" where
  "writeFile path data fs = fs(path \<mapsto> data)"

definition readFile :: "string \<Rightarrow> vfs \<Rightarrow> string option" where
  "readFile path fs = fs path"

definition deleteFile :: "string \<Rightarrow> vfs \<Rightarrow> vfs" where
  "deleteFile path fs = fs(path := None)"

section \<open>The image converter: the component and its handlers\<close>

text \<open>
  The state of \<open>ImageConverter\<close>: its props \<open>ffmpeg\<close> (the file system of the engine instance,
  \<open>None\<close> for \<open>null\<close>) and \<open>loaded\<close>, its state variables, and two logs of what it did to
  the outside: \<open>rendered\<close>, the value every \<open>setImages\<close> call gave to \<open>images\<close>, oldest
  first, and \<open>alerts\<close>, the message of every \<open>alert\<close>. \<open>zipUrl\<close> is modelled by the entries
  of the archive it refers to, in the order the archive holds them. The handlers run one
  after the other; a handler that interleaves with a conversion run is outside the model.
\<close>

record ImageConverter =
  ffmpeg :: "vfs option"
  loaded :: bool
  images :: "ImageItem list"
  outputFormat :: string
  quality :: int
  processing :: bool
  zipUrl :: "(string \<times> string) list option"
  rendered :: "ImageItem list list"
  alerts :: "string list"

text \<open>
  One uploaded file as \<open>processFiles\<close> sees it: the file, the width and height the
  browser decodes, and the identifier \<open>Math.random\<close> yields for it.
\<close>

type_synonym upload = "File \<times> int \<times> int \<times> string"

definition newItem :: "upload \<Rightarrow> ImageItem" where
  "newItem u =
     (case u of (f, w, h, i) \<Rightarrow>
        \<lparr> file_item = f, id_item = i, originalWidth = w, originalHeight = h,
          targetWidth = w, targetHeight = h, aspectRatio = of_int w / of_int h,
          keyword = [], status = Idle, outputUrl = None, outputName = None \<rparr>)"

definition setImages :: "ImageItem list \<Rightarrow> ImageConverter \<Rightarrow> ImageConverter" where
  "setImages v st = st\<lparr>images := v, rendered := rendered st @ [v]\<rparr>"

definition processFiles :: "upload list \<Rightarrow> ImageConverter \<Rightarrow> ImageConverter" where
  "processFiles files st = setImages (images st @ map newItem files) st"

definition removeImage :: "string \<Rightarrow> ImageConverter \<Rightarrow> ImageConverter" where
  "removeImage i st = setImages (filter (\<lambda>x. id_item x \<noteq> i) (images st)) st"

definition handleKeywordChange :: "string \<Rightarrow> string \<Rightarrow> ImageConverter \<Rightarrow> ImageConverter" where
  "handleKeywordChange i v st =
     setImages (map (\<lambda>img. if id_item img = i then img\<lparr>keyword := v\<rparr> else img) (images st)) st"

datatype Dimension = Width | Height

definition changeDimension :: "Dimension \<Rightarrow> int \<Rightarrow> ImageItem \<Rightarrow> ImageItem" where
  "changeDimension dimension v img =
     (case dimension of
        Width \<Rightarrow> img\<lparr>targetWidth := v, targetHeight := Math_round (of_int v / aspectRatio img)\<rparr>
      | Height \<Rightarrow> img\<lparr>targetWidth := Math_round (of_int v * aspectRatio img), targetHeight := v\<rparr>)"

definition handleDimensionChange :: "string \<Rightarrow> Dimension \<Rightarrow> int \<Rightarrow> ImageConverter \<Rightarrow> ImageConverter" where
  "handleDimensionChange i dimension v st =
     setImages (map (\<lambda>img. if id_item img \<noteq> i then img else changeDimension dimension v img)
                  (images st)) st"

section \<open>The image converter: the conversion run\<close>

text \<open>The name of an item's entry in the archive, lines 191 and 192.\<close>

definition originalName :: "ImageItem \<Rightarrow> string" where
  "originalName img = join_str ''.'' (butlast (split_str CHR ''.'' (name (file_item img))))"

definition entryName :: "ImageItem \<Rightarrow> string \<Rightarrow> string" where
  "entryName img fmt = originalName img @ ''.'' @ fmt"

text \<open>The name of an item's own download, lines 199 to 205.\<close>

definition finalName :: "ImageItem \<Rightarrow> string" where
  "finalName img =
     (if hasKeyword img then replaceNonNameChars (trim (keyword img))
      else (case split_str CHR ''.'' (name (file_item img)) of
              [] \<Rightarrow> ''undefined''
            | p # _ \<Rightarrow> p))"

definition downloadName :: "ImageItem \<Rightarrow> string \<Rightarrow> string" where
  "downloadName img fmt = finalName img @ ''.'' @ fmt"

text \<open>
  The local variables of one run of \<open>convertImages\<close>: the array \<open>updatedImages\<close>, the files
  of the archive folder (a later file of the same name replaces the earlier one in its
  place), the engine's file system, the \<open>setImages\<close> calls so far and \<open>processedCount\<close>.
\<close>

record Run =
  updatedImages :: "ImageItem list"
  folder :: "(string \<times> string) list"
  engineFs :: vfs
  published :: "ImageItem list list"
  processedCount :: nat

text \<open>
  The body of the loop for index \<open>i\<close>, lines 144 to 212. \<open>Inl\<close> is an exception, carrying
  the variables as they stand when it is thrown; \<open>Inr\<close> is the normal end of the body.
\<close>

definition processItem :: "engine \<Rightarrow> string \<Rightarrow> int \<Rightarrow> nat \<Rightarrow> Run \<Rightarrow> Run + Run" where
  "processItem exec fmt q i R =
     (if \<not> i < length (updatedImages R) then Inl R
      else
        let img = updatedImages R ! i;
            u1 = (updatedImages R)[i := img\<lparr>status := Processing\<rparr>];
            R1 = R\<lparr>updatedImages := u1, published := published R @ [u1]\<rparr>;
            fs1 = writeFile (inputName img) (content (file_item img)) (engineFs R);
            args = imageArgs img fmt q
        in case exec args fs1 of
             None \<Rightarrow> Inl (R1\<lparr>engineFs := fs1\<rparr>)
           | Some fs2 \<Rightarrow>
               (case readFile (outputFile img fmt) fs2 of
                  None \<Rightarrow> Inl (R1\<lparr>engineFs := fs2\<rparr>)
                | Some data \<Rightarrow>
                    let u2 = u1[i := (u1 ! i)\<lparr>status := Done,
                                 outputUrl := Some \<lparr>blobData = data, blobType = ''image/'' @ fmt\<rparr>,
                                 outputName := Some (downloadName img fmt)\<rparr>]
                    in Inr \<lparr> updatedImages = u2,
                             folder = AList.update (entryName img fmt) data (folder R),
                             engineFs = deleteFile (outputFile img fmt) (deleteFile (inputName img) fs2),
                             published = published R1 @ [u2],
                             processedCount = processedCount R + 1 \<rparr>))"

text \<open>The \<open>for\<close> loop of line 143, from index \<open>i\<close> on.\<close>

function convertLoop :: "engine \<Rightarrow> string \<Rightarrow> int \<Rightarrow> nat \<Rightarrow> Run \<Rightarrow> Run + Run" where
  "convertLoop exec fmt q i R =
     (if i < length (updatedImages R)
      then (case processItem exec fmt q i R of
              Inl E \<Rightarrow> Inl E
            | Inr R' \<Rightarrow> convertLoop exec fmt q (i + 1) R')
      else Inr R)"
  by pat_completeness auto
termination
  by (relation "measure (\<lambda>(exec, fmt, q, i, R). length (updatedImages R) - i)")
     (auto simp: processItem_def Let_def split: option.splits if_splits)

declare convertLoop.simps [simp del]

text \<open>The variables as the loop finds them, lines 136 to 140.\<close>

definition startRun :: "ImageConverter \<Rightarrow> vfs \<Rightarrow> Run" where
  "startRun st fs0 =
     \<lparr> updatedImages = images st, folder = [], engineFs = fs0, published = [],
       processedCount = 0 \<rparr>"

text \<open>
  \<open>convertImages\<close>. The state it returns is the one after \<open>finally\<close>; \<open>images\<close> holds the
  items of \<open>updatedImages\<close>, which every \<open>setImages\<close> call of the run shares.
\<close>

definition convertImages :: "engine \<Rightarrow> ImageConverter \<Rightarrow> ImageConverter" where
  "convertImages exec st =
     (if \<not> loaded st \<or> ffmpeg st = None \<or> images st = [] then st
      else
        (case ffmpeg st of
           None \<Rightarrow> st
         | Some fs0 \<Rightarrow>
             (case convertLoop exec (outputFormat st) (quality st) 0 (startRun st fs0) of
                Inr R \<Rightarrow>
                  st\<lparr> ffmpeg := Some (engineFs R), images := updatedImages R, processing := False,
                      zipUrl := Some (folder R), rendered := rendered st @ published R \<rparr>
              | Inl E \<Rightarrow>
                  st\<lparr> ffmpeg := Some (engineFs E), images := updatedImages E, processing := False,
                      zipUrl := None, rendered := rendered st @ published E,
                      alerts := alerts st @ [''Error during conversion''] \<rparr>)))"

section \<open>The video converter\<close>

text \<open>
  The state variables of \<open>VideoConverter\<close> that the argument plan and the two dimension
  handlers read or write. \<open>outputFormat\<close> and \<open>aspectRatio\<close> are \<open>videoFormat\<close> and
  \<open>videoAspectRatio\<close> here.
\<close>

record VideoConverter =
  videoFormat :: string
  resolution :: string
  customWidth :: int
  customHeight :: int
  videoAspectRatio :: rat
  codec :: string

text \<open>The scale filter of \<open>convert\<close>, lines 108 to 119.\<close>

definition resolutionArgs :: "VideoConverter \<Rightarrow> string list" where
  "resolutionArgs st =
     (if resolution st = ''custom''
      then
        let finalW = Math_round (of_int (customWidth st) / 2) * 2;
            finalH = Math_round (of_int (customHeight st) / 2) * 2
        in [''-vf'', ''scale='' @ toString finalW @ '':'' @ toString finalH]
      else if resolution st \<noteq> ''original''
      then
        (if resolution st = ''4k'' then [''-vf'', ''scale=-1:2160''] else [])
        @ (if resolution st = ''1440p'' then [''-vf'', ''scale=-1:1440''] else [])
        @ (if resolution st = ''1080p'' then [''-vf'', ''scale=-1:1080''] else [])
        @ (if resolution st = ''720p'' then [''-vf'', ''scale=-1:720''] else [])
        @ (if resolution st = ''480p'' then [''-vf'', ''scale=-1:480''] else [])
        @ (if resolution st = ''360p'' then [''-vf'', ''scale=-1:360''] else [])
      else [])"

text \<open>The codec directive of \<open>convert\<close>, lines 122 to 129.\<close>

definition codecArgs :: "VideoConverter \<Rightarrow> string list" where
  "codecArgs st =
     (if codec st \<noteq> ''copy''
      then [''-c:v'', codec st]
           @ (if videoFormat st = ''mp4'' \<and> codec st = ''libx264'' then [''-preset'', ''fast''] else [])
      else [''-c:v'', ''copy''])"

text \<open>The argument list \<open>convert\<close> hands to the engine, lines 104 to 131.\<close>

definition videoArgs :: "VideoConverter \<Rightarrow> string list" where
  "videoArgs st =
     [''-i'', ''input''] @ resolutionArgs st @ codecArgs st @ [''output.'' @ videoFormat st]"



section \<open>Notions of the specification\<close>

text \<open>The clamp of the specification.\<close>

definition clamp :: "int \<Rightarrow> int \<Rightarrow> int \<Rightarrow> int" where
  "clamp x lo hi = max lo (min hi x)"

text \<open>An even integer is kept, an odd one goes up to the next even integer.\<close>

definition nextEven :: "int \<Rightarrow> int" where
  "nextEven n = (if even n then n else n + 1)"

text \<open>
  The text of a file name before its first dot, and before its last dot (empty when
  the name has no dot).
\<close>

definition beforeFirstDot :: "string \<Rightarrow> string" where
  "beforeFirstDot s = takeWhile (\<lambda>c. c \<noteq> CHR ''.'') s"

definition beforeLastDot :: "string \<Rightarrow> string" where
  "beforeLastDot s = rev (tl (dropWhile (\<lambda>c. c \<noteq> CHR ''.'') (rev s)))"

text \<open>An item as a successful pass of the loop body leaves it.\<close>

definition doneItem :: "string \<Rightarrow> string \<Rightarrow> ImageItem \<Rightarrow> ImageItem" where
  "doneItem fmt data img =
     img\<lparr>status := Done, outputUrl := Some \<lparr>blobData = data, blobType = ''image/'' @ fmt\<rparr>,
         outputName := Some (downloadName img fmt)\<rparr>"

text \<open>
  The life of an item between two successive values of \<open>images\<close>: it keeps its identifier,
  and its status stays as it is, becomes \<open>processing\<close>, or goes from \<open>processing\<close> to \<open>done\<close>.
\<close>

definition item_step :: "ImageItem \<Rightarrow> ImageItem \<Rightarrow> bool" where
  "item_step x y =
     (id_item y = id_item x
      \<and> (status y = status x \<or> status y = Processing
           \<or> (status x = Processing \<and> status y = Done)))"

text \<open>
  Two successive values of \<open>images\<close>: idle items were appended, or the items of one
  identifier were removed, or every item stayed in its place and made an \<open>item_step\<close>.
\<close>

definition snapshot_step :: "ImageItem list \<Rightarrow> ImageItem list \<Rightarrow> bool" where
  "snapshot_step s s' =
     ((take (length s) s' = s \<and> list_all (\<lambda>x. status x = Idle) (drop (length s) s'))
      \<or> (\<exists>x \<in> set s. s' = filter (\<lambda>y. id_item y \<noteq> id_item x) s)
      \<or> list_all2 item_step s s')"

text \<open>What a user does to the image list, and a session of such operations.\<close>

datatype Op =
    Enqueue "upload list"
  | Tag string string
  | Resize string Dimension int
  | Convert engine
  | Discard string

fun applyOp :: "Op \<Rightarrow> ImageConverter \<Rightarrow> ImageConverter" where
  "applyOp (Enqueue files) st = processFiles files st"
| "applyOp (Tag i v) st = handleKeywordChange i v st"
| "applyOp (Resize i d v) st = handleDimensionChange i d v st"
| "applyOp (Convert exec) st = convertImages exec st"
| "applyOp (Discard i) st = removeImage i st"

definition runOps :: "Op list \<Rightarrow> ImageConverter \<Rightarrow> ImageConverter" where
  "runOps ops st = foldl (\<lambda>s op. applyOp op s) st ops"

section \<open>Sample data for the concrete evaluations\<close>

definition sampleItem :: ImageItem where
  "sampleItem =
     \<lparr> file_item = \<lparr>name = ''a.b.png'', content = ''PNG''\<rparr>, id_item = ''x1'',
       originalWidth = 1920, originalHeight = 1080, targetWidth = 960, targetHeight = 540,
       aspectRatio = 16 / 9, keyword = [], status = Idle, outputUrl = None,
       outputName = None \<rparr>"

text \<open>The video component as it starts, switched to the custom resolution 1001 by 563.\<close>

definition sampleVideo :: VideoConverter where
  "sampleVideo =
     \<lparr> videoFormat = ''mp4'', resolution = ''custom'', customWidth = 1001, customHeight = 563,
       videoAspectRatio = 16 / 9, codec = ''libx264'' \<rparr>"

text \<open>The image component as it mounts: the initial values of its state variables.\<close>

definition initialState :: "vfs option \<Rightarrow> bool \<Rightarrow> ImageConverter" where
  "initialState engineFs0 isLoaded =
     \<lparr> ffmpeg = engineFs0, loaded = isLoaded, images = [], outputFormat = ''webp'', quality = 100,
       processing = False, zipUrl = None, rendered = [], alerts = [] \<rparr>"


definition photoUpload :: upload where
  "photoUpload = (\<lparr>name = ''photo.png'', content = ''PNG''\<rparr>, 1920, 1080, ''x1'')"

definition upload1080 :: "string \<Rightarrow> string \<Rightarrow> upload" where
  "upload1080 n i = (\<lparr>name = n, content = ''PNG''\<rparr>, 1920, 1080, i)"

text \<open>
  Two engines to run the conversion on. The first always succeeds and writes its output
  file, the last argument; the second throws when a given name is among the arguments.
\<close>

definition okEngine :: engine where
  "okEngine args v = Some (v(last args \<mapsto> ''converted''))"

definition failOn :: "string \<Rightarrow> engine" where
  "failOn inp args v = (if inp \<in> set args then None else okEngine args v)"

text \<open>A loaded engine with an empty file system, and three photos in the list.\<close>

definition readyState :: ImageConverter where
  "readyState = initialState (Some Map.empty) True"

definition threePhotos :: ImageConverter where
  "threePhotos =
     processFiles [upload1080 ''a.png'' ''x1'', upload1080 ''b.png'' ''x2'',
                   upload1080 ''c.png'' ''x3''] readyState"


definition dottedPhoto :: ImageConverter where
  "dottedPhoto = processFiles [upload1080 ''a.b.png'' ''x1''] readyState"

section \<open>The JPEG quality mapping\<close>

text \<open>
  The quotient of line 167 has an integer numerator and the denominator 99, so its floor
  is an integer division. For an integer quality between 1 and 100 the exact quotient is
  an integer or at least 1/99 away from one, so the floor of the double is the same.
\<close>

lemma jpegQuality_div: "jpegQuality q = max 2 ((3069 - 29 * (q - 1)) div 99)"
proof -
  have "(31 - (of_int ((q - 1) * 29) / 99) :: rat) = of_int (3069 - 29 * (q - 1)) / of_int 99"
    by (simp add: field_simps)
  then have "\<lfloor>(31 - (of_int ((q - 1) * 29) / 99) :: rat)\<rfloor> = (3069 - 29 * (q - 1)) div 99"
    by (simp only: floor_divide_of_int_eq)
  then show ?thesis
    by (simp add: jpegQuality_def Math_floor_def)
qed

lemma spec_quality_floor:
  "\<lfloor>31 - (of_int (q - 1) * 29 / 99 :: rat)\<rfloor> = (3069 - 29 * (q - 1)) div 99"
proof -
  have "(31 - (of_int (q - 1) * 29 / 99) :: rat) = of_int (3069 - 29 * (q - 1)) / of_int 99"
    by (simp add: field_simps)
  then show ?thesis
    by (simp only: floor_divide_of_int_eq)
qed

lemma jpegQuality_clamp:
  "1 \<le> q \<Longrightarrow> jpegQuality q = clamp \<lfloor>31 - (of_int (q - 1) * 29 / 99 :: rat)\<rfloor> 2 31"
  unfolding spec_quality_floor jpegQuality_div clamp_def by auto

lemma jpegQuality_mono: "q \<le> q' \<Longrightarrow> jpegQuality q' \<le> jpegQuality q"
  unfolding jpegQuality_div by (intro max.mono zdiv_mono1) auto

lemma jpegQuality_range: "1 \<le> q \<Longrightarrow> 2 \<le> jpegQuality q \<and> jpegQuality q \<le> 31"
  unfolding jpegQuality_div by auto

lemma jpegQuality_ends: "jpegQuality 1 = 31 \<and> jpegQuality 100 = 2"
  unfolding jpegQuality_div by simp

text \<open>
  Claim C2. For an integer quality \<open>q\<close> from 1 to 100 and the output format \<open>jpg\<close> or
  \<open>jpeg\<close>, the argument list carries the quality directive \<open>-q:v\<close> with the value
  \<open>clamp(floor(31 - (q - 1) * 29 / 99), 2, 31)\<close>, between the resize and the metadata
  directives. The mapping sends 1 to 31 and 100 to 2, does not increase from \<open>q\<close> up to
  100, and stays within 2 and 31.
\<close>

theorem jpeg_quality_plan:
  assumes "1 \<le> q" and "q \<le> 100" and "fmt = ''jpg'' \<or> fmt = ''jpeg''"
  shows "imageArgs img fmt q =
           [''-i'', inputName img] @ resizeArgs img
           @ [''-q:v'', toString (clamp \<lfloor>31 - (of_int (q - 1) * 29 / 99 :: rat)\<rfloor> 2 31)]
           @ metadataArgs img @ [outputFile img fmt]
         \<and> jpegQuality q = clamp \<lfloor>31 - (of_int (q - 1) * 29 / 99 :: rat)\<rfloor> 2 31
         \<and> jpegQuality 1 = 31 \<and> jpegQuality 100 = 2
         \<and> (\<forall>q'. q \<le> q' \<and> q' \<le> 100 \<longrightarrow> jpegQuality q' \<le> jpegQuality q)
         \<and> 2 \<le> jpegQuality q \<and> jpegQuality q \<le> 31"
proof -
  have c: "jpegQuality q = clamp \<lfloor>31 - (of_int (q - 1) * 29 / 99 :: rat)\<rfloor> 2 31"
    using assms(1) by (rule jpegQuality_clamp)
  have "qualityArgs fmt q = [''-q:v'', toString (jpegQuality q)]"
    using assms(3) by (auto simp: qualityArgs_def)
  then have a: "imageArgs img fmt q =
           [''-i'', inputName img] @ resizeArgs img
           @ [''-q:v'', toString (clamp \<lfloor>31 - (of_int (q - 1) * 29 / 99 :: rat)\<rfloor> 2 31)]
           @ metadataArgs img @ [outputFile img fmt]"
    by (simp add: imageArgs_def c)
  have m: "\<forall>q'. q \<le> q' \<and> q' \<le> 100 \<longrightarrow> jpegQuality q' \<le> jpegQuality q"
    by (simp add: jpegQuality_mono)
  from a c m jpegQuality_ends jpegQuality_range [OF assms(1)] show ?thesis
    by blast
qed

text \<open>
  The theorem at quality 50 and format \<open>jpg\<close>, for an item that was resized and has
  no keyword: the directive is \<open>-q:v 16\<close>, and quality 80 gives a value no larger.
\<close>

theorem jpeg_quality_plan_witness:
  "(1::int) \<le> 50 \<and> (50::int) \<le> 100
   \<and> imageArgs sampleItem ''jpg'' 50
       = [''-i'', ''input_x1'', ''-vf'', ''scale=960:540'', ''-q:v'', ''16'', ''output_x1.jpg'']
   \<and> jpegQuality 50 = 16 \<and> jpegQuality 80 \<le> jpegQuality 50"
proof -
  have h: "''jpg'' = ''jpg'' \<or> ''jpg'' = ''jpeg''"
    by simp
  have f: "\<lfloor>1648 / 99 :: rat\<rfloor> = 16"
    using spec_quality_floor [of 50] by simp
  have r: "resizeArgs sampleItem = [''-vf'', ''scale=960:540'']"
    by code_simp
  have m: "metadataArgs sampleItem = []"
    by code_simp
  have t: "toString 16 = ''16''"
    by code_simp
  have n: "inputName sampleItem = ''input_x1''" "outputFile sampleItem ''jpg'' = ''output_x1.jpg''"
    by (simp_all add: inputName_def outputFile_def sampleItem_def)
  from jpeg_quality_plan [of 50 "''jpg''" sampleItem, OF _ _ h]
  show ?thesis
    by (auto simp add: f r m t n clamp_def)
qed

section \<open>Editing a target dimension of an image\<close>


lemma changeDimension_ratio: "aspectRatio (changeDimension d v img) = aspectRatio img"
  by (cases d) (simp_all add: changeDimension_def)



lemma newItem_ratio:
  "0 < w \<Longrightarrow> 0 < h \<Longrightarrow> aspectRatio (newItem (f, w, h, j)) = of_int w / of_int h
     \<and> 0 < aspectRatio (newItem (f, w, h, j))"
  by (simp add: newItem_def)




section \<open>The custom resolution of a video\<close>

lemma Math_round_half: "Math_round (of_int n / 2) = (n + 1) div 2"
proof -
  have "(of_int n / 2 + 1 / 2 :: rat) = of_int (n + 1) / of_int 2"
    by (simp add: field_simps)
  then show ?thesis
    unfolding Math_round_def by (simp only: floor_divide_of_int_eq)
qed

lemma round_even: "Math_round (of_int n / 2) * 2 = nextEven n"
  unfolding Math_round_half nextEven_def by presburger

text \<open>
  Claim C4, as the code has it. In the custom resolution mode the plan is the input
  reference, one scale filter, the codec directive and the output reference; the width
  and the height of the filter are the requested values when they are even and the next
  larger integer when they are odd. Both are even and at most 1 above the request.
\<close>

theorem custom_resolution_plan:
  assumes "resolution st = ''custom''"
  shows "videoArgs st =
           [''-i'', ''input'', ''-vf'',
            ''scale='' @ toString (nextEven (customWidth st)) @ '':''
              @ toString (nextEven (customHeight st))]
           @ codecArgs st @ [''output.'' @ videoFormat st]
         \<and> even (nextEven (customWidth st)) \<and> even (nextEven (customHeight st))
         \<and> customWidth st \<le> nextEven (customWidth st)
         \<and> nextEven (customWidth st) \<le> customWidth st + 1
         \<and> customHeight st \<le> nextEven (customHeight st)
         \<and> nextEven (customHeight st) \<le> customHeight st + 1"
  using assms by (simp add: videoArgs_def resolutionArgs_def round_even Let_def nextEven_def)

text \<open>The theorem at the request 1280 by 721: the filter is \<open>scale=1280:722\<close>.\<close>

theorem custom_resolution_plan_witness:
  "resolution (sampleVideo\<lparr>customWidth := 1280, customHeight := 721\<rparr>) = ''custom''
   \<and> videoArgs (sampleVideo\<lparr>customWidth := 1280, customHeight := 721\<rparr>)
       = [''-i'', ''input'', ''-vf'', ''scale=1280:722'', ''-c:v'', ''libx264'',
          ''-preset'', ''fast'', ''output.mp4'']"
proof -
  let ?st = "sampleVideo\<lparr>customWidth := 1280, customHeight := 721\<rparr>"
  have h: "resolution ?st = ''custom''"
    by (simp add: sampleVideo_def)
  have t: "toString 1280 = ''1280''" "toString 722 = ''722''"
    by code_simp+
  have c: "codecArgs ?st = [''-c:v'', ''libx264'', ''-preset'', ''fast'']"
    by (simp add: codecArgs_def sampleVideo_def)
  have d: "customWidth ?st = 1280" "customHeight ?st = 721" "videoFormat ?st = ''mp4''"
    by (simp_all add: sampleVideo_def)
  from custom_resolution_plan [OF h] show ?thesis
    by (simp add: h t c d nextEven_def)
qed

text \<open>
  Claim C4 as it is written fails at its own example: for the request 1001 by 563 the plan
  carries \<open>scale=1002:564\<close>, and \<open>scale=1000:562\<close> is not in it.
\<close>

theorem custom_resolution_counterexample:
  "videoArgs sampleVideo
     = [''-i'', ''input'', ''-vf'', ''scale=1002:564'', ''-c:v'', ''libx264'',
        ''-preset'', ''fast'', ''output.mp4'']
   \<and> ''scale=1000:562'' \<notin> set (videoArgs sampleVideo)"
  by code_simp

section \<open>Editing a custom dimension of a video\<close>






section \<open>Numbers and names as text\<close>

lemma toStringNat_digits: "set (toStringNat n) \<subseteq> set ''0123456789''"
proof (induction n rule: toStringNat.induct)
  case (1 n)
  have d: "digitChar k \<in> set ''0123456789''" if "k < 10" for k
    unfolding digitChar_def using that by (intro nth_mem) simp
  show ?case
  proof (cases "n < 10")
    case True
    then show ?thesis
      using d [of n] by (subst toStringNat.simps) simp
  next
    case False
    then show ?thesis
      using 1 d [of "n mod 10"] by (subst toStringNat.simps) simp
  qed
qed

lemma toString_not_directive: "toString i \<noteq> ''-metadata''"
proof
  assume a: "toString i = ''-metadata''"
  show False
  proof (cases "i < 0")
    case True
    with a have "toStringNat (nat (- i)) = ''metadata''"
      by (simp add: toString_def)
    then have "CHR ''m'' \<in> set (toStringNat (nat (- i)))"
      by simp
    with toStringNat_digits show False
      by fastforce
  next
    case False
    with a have "toStringNat (nat i) = ''-metadata''"
      by (simp add: toString_def)
    then have "CHR ''-'' \<in> set (toStringNat (nat i))"
      by simp
    with toStringNat_digits show False
      by fastforce
  qed
qed

lemma trim_Nil: "trim [] = []"
  by (simp add: trim_def)

lemma hasKeyword_iff: "hasKeyword img \<longleftrightarrow> trim (keyword img) \<noteq> []"
  using trim_Nil by (auto simp: hasKeyword_def)

lemma split_str_nonempty: "split_str sep s \<noteq> []"
  by (induction s) (auto split: list.splits)

lemma split_str_length: "length (split_str sep s) = Suc (count_list s sep)"
  by (induction s) (auto split: list.splits)

lemma split_str_first:
  "(case split_str sep s of [] \<Rightarrow> u | p # _ \<Rightarrow> p) = takeWhile (\<lambda>c. c \<noteq> sep) s"
  by (induction s) (auto split: list.splits simp: split_str_nonempty)

lemma join_str_Cons: "join_str sep ((c # p) # ps) = c # join_str sep (p # ps)"
  by (cases ps) simp_all

lemma split_single: "sep \<notin> set s \<Longrightarrow> split_str sep s = [s]"
  by (induction s) auto

lemma split_many: "sep \<in> set s \<Longrightarrow> \<exists>p q ps. split_str sep s = p # q # ps"
  by (induction s) (auto split: list.splits simp: split_str_nonempty neq_Nil_conv)

lemma join_butlast_split:
  "join_str [sep] (butlast (split_str sep s)) = rev (tl (dropWhile (\<lambda>c. c \<noteq> sep) (rev s)))"
proof (induction s)
  case Nil
  show ?case by simp
next
  case (Cons c cs)
  show ?case
  proof (cases "sep \<in> set cs")
    case False
    then have "dropWhile (\<lambda>c. c \<noteq> sep) (rev cs @ [x]) = dropWhile (\<lambda>c. c \<noteq> sep) [x]" for x
      by (intro dropWhile_append2) auto
    with False show ?thesis
      by (cases "c = sep") (simp_all add: split_single)
  next
    case True
    then obtain p q ps where s: "split_str sep cs = p # q # ps"
      using split_many by blast
    from True have d: "dropWhile (\<lambda>c. c \<noteq> sep) (rev cs) \<noteq> []"
      by (simp add: dropWhile_eq_Nil_conv)
    have r: "rev (tl (dropWhile (\<lambda>c. c \<noteq> sep) (rev (c # cs))))
               = c # rev (tl (dropWhile (\<lambda>c. c \<noteq> sep) (rev cs)))"
      using True d by (simp add: dropWhile_append1)
    have l: "join_str [sep] (butlast (split_str sep (c # cs)))
               = c # join_str [sep] (butlast (split_str sep cs))"
      using s by (cases "c = sep") (simp_all add: join_str_Cons)
    show ?thesis
      unfolding r l Cons.IH ..
  qed
qed

lemma join_has_sep:
  assumes "2 \<le> length ps"
  shows "c \<in> set (join_str [c] ps)"
proof -
  from assms obtain p q r where "ps = p # q # r"
    by (cases ps; cases "tl ps") auto
  then show ?thesis
    by simp
qed

lemma stems_differ:
  assumes "2 \<le> count_list s sep"
  shows "takeWhile (\<lambda>c. c \<noteq> sep) s \<noteq> join_str [sep] (butlast (split_str sep s))"
proof -
  have "2 \<le> length (butlast (split_str sep s))"
    using assms by (simp add: split_str_length)
  then have "sep \<in> set (join_str [sep] (butlast (split_str sep s)))"
    by (rule join_has_sep)
  moreover have "sep \<notin> set (takeWhile (\<lambda>c. c \<noteq> sep) s)"
    by (auto dest: set_takeWhileD)
  ultimately show ?thesis
    by metis
qed

section \<open>The metadata directives\<close>

lemma metadataArgs_set:
  "trim (keyword img) \<noteq> [] \<Longrightarrow> metadataArgs img =
     [''-metadata'', ''title='' @ keyword img, ''-metadata'', ''description='' @ keyword img,
      ''-metadata'', ''comment='' @ keyword img, ''-metadata'', ''author='' @ keyword img,
      ''-metadata'', ''copyright='' @ keyword img, ''-metadata'', ''ICRD='' @ keyword img]"
  by (simp add: metadataArgs_def hasKeyword_iff metaTags_def)

lemma count_rest:
  "count_list ([''-i'', inputName img] @ resizeArgs img @ qualityArgs fmt q) ''-metadata'' = 0"
  by (simp add: inputName_def resizeArgs_def qualityArgs_def toString_not_directive)

lemma count_out: "count_list [outputFile img fmt] ''-metadata'' = 0"
  by (simp add: outputFile_def)

lemma count_meta:
  "trim (keyword img) \<noteq> [] \<Longrightarrow> count_list (metadataArgs img) ''-metadata'' = 6"
  by (simp add: metadataArgs_set)

lemma count_imageArgs:
  "count_list (imageArgs img fmt q) x =
     count_list ([''-i'', inputName img] @ resizeArgs img @ qualityArgs fmt q) x
     + count_list (metadataArgs img) x + count_list [outputFile img fmt] x"
  by (simp add: imageArgs_def)

lemma count_directives:
  assumes "trim (keyword img) \<noteq> []"
  shows "count_list (imageArgs img fmt q) ''-metadata'' = 6"
  using count_rest [of img fmt q] count_out [of img fmt] count_meta [OF assms]
  by (simp only: count_imageArgs)

text \<open>
  Claim C8, as the code has it. The test on the keyword is on its trimmed text. When the
  keyword has a character that is not white space, the plan carries, between the quality
  directive and the output reference, six metadata directives, one for each of the keys
  \<open>title\<close>, \<open>description\<close>, \<open>comment\<close>, \<open>author\<close>, \<open>copyright\<close> and \<open>ICRD\<close> (the creation
  date), in this order, each with the keyword as it was typed; \<open>-metadata\<close> occurs six
  times in the plan. When the keyword is empty or white space only, the plan has no
  metadata directive.
\<close>

theorem metadata_directives:
  "(trim (keyword img) \<noteq> [] \<longrightarrow>
      imageArgs img fmt q =
        [''-i'', inputName img] @ resizeArgs img @ qualityArgs fmt q
        @ [''-metadata'', ''title='' @ keyword img, ''-metadata'', ''description='' @ keyword img,
           ''-metadata'', ''comment='' @ keyword img, ''-metadata'', ''author='' @ keyword img,
           ''-metadata'', ''copyright='' @ keyword img, ''-metadata'', ''ICRD='' @ keyword img]
        @ [outputFile img fmt]
    \<and> count_list (imageArgs img fmt q) ''-metadata'' = 6)
   \<and> (trim (keyword img) = [] \<longrightarrow>
        imageArgs img fmt q =
          [''-i'', inputName img] @ resizeArgs img @ qualityArgs fmt q @ [outputFile img fmt]
      \<and> count_list (imageArgs img fmt q) ''-metadata'' = 0)"
proof (cases "trim (keyword img) = []")
  case True
  then have m: "metadataArgs img = []"
    by (simp add: metadataArgs_def hasKeyword_iff)
  have "count_list (imageArgs img fmt q) ''-metadata'' = 0"
    using count_rest [of img fmt q] count_out [of img fmt] m
    by (simp only: count_imageArgs) simp
  with True m show ?thesis
    by (simp add: imageArgs_def)
next
  case False
  with metadataArgs_set [OF False] count_directives [OF False, of fmt q] show ?thesis
    by (simp add: imageArgs_def)
qed

text \<open>The theorem for the keyword \<open>Summer Sale!!\<close> and the format \<open>png\<close>.\<close>

theorem metadata_directives_witness:
  "trim (keyword (sampleItem\<lparr>keyword := ''Summer Sale!!''\<rparr>)) \<noteq> []
   \<and> imageArgs (sampleItem\<lparr>keyword := ''Summer Sale!!''\<rparr>) ''png'' 100 =
       [''-i'', ''input_x1'', ''-vf'', ''scale=960:540'',
        ''-metadata'', ''title=Summer Sale!!'', ''-metadata'', ''description=Summer Sale!!'',
        ''-metadata'', ''comment=Summer Sale!!'', ''-metadata'', ''author=Summer Sale!!'',
        ''-metadata'', ''copyright=Summer Sale!!'', ''-metadata'', ''ICRD=Summer Sale!!'',
        ''output_x1.png'']"
proof -
  let ?img = "sampleItem\<lparr>keyword := ''Summer Sale!!''\<rparr>"
  have h: "trim (keyword ?img) \<noteq> []"
    by code_simp
  have r: "resizeArgs ?img = [''-vf'', ''scale=960:540'']"
    by code_simp
  have n: "inputName ?img = ''input_x1''" "outputFile ?img ''png'' = ''output_x1.png''"
    "keyword ?img = ''Summer Sale!!''" "qualityArgs ''png'' 100 = []"
    by (simp_all add: inputName_def outputFile_def sampleItem_def qualityArgs_def)
  from metadata_directives [of ?img "''png''" 100] h show ?thesis
    by (simp add: r n)
qed

text \<open>
  Claim C8 as it is written fails: a keyword of one space is not empty, and the plan of
  its item has no metadata directive.
\<close>

theorem blank_keyword_counterexample:
  "keyword (sampleItem\<lparr>keyword := '' ''\<rparr>) \<noteq> []
   \<and> imageArgs (sampleItem\<lparr>keyword := '' ''\<rparr>) ''png'' 100
       = [''-i'', ''input_x1'', ''-vf'', ''scale=960:540'', ''output_x1.png'']"
  by code_simp

section \<open>The conversion run, step by step\<close>

lemma processItem_Inr:
  assumes "processItem exec fmt q i R = Inr R'"
  obtains fs2 data where
    "i < length (updatedImages R)"
    "exec (imageArgs (updatedImages R ! i) fmt q)
       (writeFile (inputName (updatedImages R ! i)) (content (file_item (updatedImages R ! i)))
          (engineFs R)) = Some fs2"
    "readFile (outputFile (updatedImages R ! i) fmt) fs2 = Some data"
    "updatedImages R' = (updatedImages R)[i := doneItem fmt data (updatedImages R ! i)]"
    "folder R' = AList.update (entryName (updatedImages R ! i) fmt) data (folder R)"
    "engineFs R' = deleteFile (outputFile (updatedImages R ! i) fmt)
                     (deleteFile (inputName (updatedImages R ! i)) fs2)"
    "published R' = published R
        @ [(updatedImages R)[i := (updatedImages R ! i)\<lparr>status := Processing\<rparr>], updatedImages R']"
    "processedCount R' = processedCount R + 1"
  using assms
  by (auto simp: processItem_def Let_def doneItem_def split: if_splits option.splits)

lemma processItem_Inl:
  assumes "processItem exec fmt q i R = Inl E" and "i < length (updatedImages R)"
  shows "updatedImages E = (updatedImages R)[i := (updatedImages R ! i)\<lparr>status := Processing\<rparr>]
       \<and> folder E = folder R
       \<and> published E = published R @ [updatedImages E]"
  using assms
  by (auto simp: processItem_def Let_def split: if_splits option.splits)

lemma convertLoop_Inr:
  "convertLoop exec fmt q i R = Inr R' \<Longrightarrow>
     length (updatedImages R') = length (updatedImages R)
   \<and> (\<forall>k < length (updatedImages R).
         if k < i then updatedImages R' ! k = updatedImages R ! k
         else \<exists>data. updatedImages R' ! k = doneItem fmt data (updatedImages R ! k))
   \<and> fst ` set (folder R')
       = fst ` set (folder R) \<union> (\<lambda>x. entryName x fmt) ` set (drop i (updatedImages R))"
proof (induction exec fmt q i R rule: convertLoop.induct)
  case (1 exec fmt q i R)
  show ?case
  proof (cases "i < length (updatedImages R)")
    case False
    with "1.prems" show ?thesis
      by (simp add: convertLoop.simps [of exec fmt q i R])
  next
    case True
    with "1.prems" obtain R1 where
      p: "processItem exec fmt q i R = Inr R1" and
      l: "convertLoop exec fmt q (i + 1) R1 = Inr R'"
      by (auto simp: convertLoop.simps [of exec fmt q i R] split: sum.splits)
    from p obtain data where
      u: "updatedImages R1 = (updatedImages R)[i := doneItem fmt data (updatedImages R ! i)]" and
      f: "folder R1 = AList.update (entryName (updatedImages R ! i) fmt) data (folder R)"
      by (rule processItem_Inr)
    note ih = "1.IH" [OF True p l]
    have len: "length (updatedImages R') = length (updatedImages R)"
      using ih u by simp
    have items: "if k < i then updatedImages R' ! k = updatedImages R ! k
         else \<exists>data. updatedImages R' ! k = doneItem fmt data (updatedImages R ! k)"
      if "k < length (updatedImages R)" for k
    proof -
      from that u have "k < length (updatedImages R1)"
        by simp
      with ih have
        c: "if k < i + 1 then updatedImages R' ! k = updatedImages R1 ! k
            else \<exists>data. updatedImages R' ! k = doneItem fmt data (updatedImages R1 ! k)"
        by blast
      consider "k < i" | "k = i" | "i < k"
        by linarith
      then show ?thesis
      proof cases
        case 1
        with c u show ?thesis by simp
      next
        case 2
        with c u True show ?thesis by auto
      next
        case 3
        with c u show ?thesis by simp
      qed
    qed
    have d: "drop i (updatedImages R) = updatedImages R ! i # drop (i + 1) (updatedImages R1)"
      using True u by (simp add: Cons_nth_drop_Suc)
    have names: "fst ` set (folder R')
       = fst ` set (folder R) \<union> (\<lambda>x. entryName x fmt) ` set (drop i (updatedImages R))"
      using ih unfolding d f by (auto simp: dom_update)
    from len items names show ?thesis
      by blast
  qed
qed


lemma item_step_refl: "item_step x x"
  by (simp add: item_step_def)

lemma item_step_update:
  "i < length xs \<Longrightarrow> item_step (xs ! i) y \<Longrightarrow> list_all2 item_step xs (xs[i := y])"
  by (auto simp: list_all2_conv_all_nth nth_list_update item_step_refl)

lemma successively_join:
  "successively P (x # xs) \<Longrightarrow> successively P (last (x # xs) # ys) \<Longrightarrow> successively P (x # xs @ ys)"
  by (induction xs arbitrary: x) (auto simp: successively_Cons)

lemma processItem_published:
  assumes "i < length (updatedImages R)"
    and "F = (case processItem exec fmt q i R of Inl E \<Rightarrow> E | Inr R' \<Rightarrow> R')"
  shows "\<exists>new. published F = published R @ new
           \<and> successively (list_all2 item_step) (updatedImages R # new)
           \<and> last (updatedImages R # new) = updatedImages F"
proof (cases "processItem exec fmt q i R")
  case (Inl E)
  with assms have f: "F = E"
    by simp
  from processItem_Inl [OF Inl assms(1)] have
    u: "updatedImages E = (updatedImages R)[i := (updatedImages R ! i)\<lparr>status := Processing\<rparr>]" and
    p: "published E = published R @ [updatedImages E]"
    by simp_all
  have "list_all2 item_step (updatedImages R) (updatedImages E)"
    unfolding u using assms(1) by (intro item_step_update) (simp_all add: item_step_def)
  with p show ?thesis
    unfolding f by (intro exI [of _ "[updatedImages E]"]) simp
next
  case (Inr R')
  with assms have f: "F = R'"
    by simp
  let ?u1 = "(updatedImages R)[i := (updatedImages R ! i)\<lparr>status := Processing\<rparr>]"
  from Inr obtain data where
    u: "updatedImages R' = (updatedImages R)[i := doneItem fmt data (updatedImages R ! i)]" and
    p: "published R' = published R @ [?u1, updatedImages R']"
    by (rule processItem_Inr)
  have 1: "list_all2 item_step (updatedImages R) ?u1"
    using assms(1) by (intro item_step_update) (simp_all add: item_step_def)
  have "updatedImages R' = ?u1[i := doneItem fmt data (updatedImages R ! i)]"
    using u by simp
  moreover have "list_all2 item_step ?u1 (?u1[i := doneItem fmt data (updatedImages R ! i)])"
    using assms(1) by (intro item_step_update) (simp_all add: item_step_def doneItem_def)
  ultimately have 2: "list_all2 item_step ?u1 (updatedImages R')"
    by simp
  from p 1 2 show ?thesis
    unfolding f by (intro exI [of _ "[?u1, updatedImages R']"]) simp
qed

lemma convertLoop_published:
  "F = (case convertLoop exec fmt q i R of Inl E \<Rightarrow> E | Inr R' \<Rightarrow> R') \<Longrightarrow>
     \<exists>new. published F = published R @ new
       \<and> successively (list_all2 item_step) (updatedImages R # new)
       \<and> last (updatedImages R # new) = updatedImages F"
proof (induction exec fmt q i R arbitrary: F rule: convertLoop.induct)
  case (1 exec fmt q i R)
  show ?case
  proof (cases "i < length (updatedImages R)")
    case False
    with "1.prems" have "F = R"
      by (simp add: convertLoop.simps [of exec fmt q i R])
    then show ?thesis
      by (intro exI [of _ "[]"]) simp
  next
    case True
    define G where "G = (case processItem exec fmt q i R of Inl E \<Rightarrow> E | Inr R' \<Rightarrow> R')"
    from processItem_published [OF True G_def] obtain new1 where
      n1: "published G = published R @ new1"
          "successively (list_all2 item_step) (updatedImages R # new1)"
          "last (updatedImages R # new1) = updatedImages G"
      by blast
    show ?thesis
    proof (cases "processItem exec fmt q i R")
      case (Inl E)
      with "1.prems" True G_def have "F = G"
        by (simp add: convertLoop.simps [of exec fmt q i R])
      with n1 show ?thesis
        by blast
    next
      case (Inr R1)
      with G_def have g: "G = R1"
        by simp
      from "1.prems" True Inr have
        "F = (case convertLoop exec fmt q (i + 1) R1 of Inl E \<Rightarrow> E | Inr R' \<Rightarrow> R')"
        by (simp add: convertLoop.simps [of exec fmt q i R])
      from "1.IH" [OF True Inr this] obtain new2 where
        n2: "published F = published R1 @ new2"
            "successively (list_all2 item_step) (updatedImages R1 # new2)"
            "last (updatedImages R1 # new2) = updatedImages F"
        by blast
      have "successively (list_all2 item_step) (updatedImages R # new1 @ new2)"
        using n1 n2 unfolding g by (intro successively_join) simp_all
      moreover have "last (updatedImages R # new1 @ new2) = updatedImages F"
        using n1(3) n2(3) unfolding g by (cases new2) (simp_all add: last_append)
      moreover have "published F = published R @ new1 @ new2"
        using n1(1) n2(1) unfolding g by simp
      ultimately show ?thesis
        by blast
    qed
  qed
qed

lemma convertImages_ok:
  assumes "loaded st" and "ffmpeg st = Some fs0" and "images st \<noteq> []"
    and "alerts (convertImages exec st) = alerts st"
  obtains R where
    "convertLoop exec (outputFormat st) (quality st) 0 (startRun st fs0) = Inr R"
    "images (convertImages exec st) = updatedImages R"
    "zipUrl (convertImages exec st) = Some (folder R)"
    "ffmpeg (convertImages exec st) = Some (engineFs R)"
  using assms
  by (auto simp: convertImages_def split: sum.splits)


lemma doneItem_fields:
  "status (doneItem fmt data img) = Done"
  "outputName (doneItem fmt data img) = Some (downloadName img fmt)"
  "outputUrl (doneItem fmt data img) = Some \<lparr>blobData = data, blobType = ''image/'' @ fmt\<rparr>"
  "id_item (doneItem fmt data img) = id_item img"
  by (simp_all add: doneItem_def)

lemma run_ok_item:
  assumes "loaded st" and "ffmpeg st = Some fs0" and "k < length (images st)"
    and "alerts (convertImages exec st) = alerts st"
  shows "(\<exists>data. images (convertImages exec st) ! k = doneItem (outputFormat st) data (images st ! k))
       \<and> (\<exists>z. zipUrl (convertImages exec st) = Some z
              \<and> fst ` set z = (\<lambda>x. entryName x (outputFormat st)) ` set (images st))
       \<and> length (images (convertImages exec st)) = length (images st)"
proof -
  from assms(3) have ne: "images st \<noteq> []"
    by auto
  from convertImages_ok [OF assms(1,2) ne assms(4)] obtain R where
    l: "convertLoop exec (outputFormat st) (quality st) 0 (startRun st fs0) = Inr R" and
    i: "images (convertImages exec st) = updatedImages R" and
    z: "zipUrl (convertImages exec st) = Some (folder R)"
    by blast
  from convertLoop_Inr [OF l] assms(3) show ?thesis
    unfolding i z by (simp add: startRun_def)
qed


section \<open>The names of the outputs\<close>

lemma originalName_eq: "originalName img = beforeLastDot (name (file_item img))"
  by (simp add: originalName_def beforeLastDot_def join_butlast_split)

lemma finalName_eq:
  "finalName img =
     (if trim (keyword img) \<noteq> [] then replaceNonNameChars (trim (keyword img))
      else beforeFirstDot (name (file_item img)))"
  by (simp add: finalName_def hasKeyword_iff beforeFirstDot_def split_str_first)




text \<open>
  Claim C9. Take a run that raised no alert, on a loaded engine, and an item whose keyword
  is empty (or blank) and whose file name has at least two dots. The name of its own
  download is the text before the first dot of the file name, with the format; the
  archive has it under the text before the last dot, with the format; and the two stems,
  hence the two names, differ.
\<close>

theorem download_and_entry_stems_differ:
  assumes "loaded st" and "ffmpeg st \<noteq> None" and "k < length (images st)"
    and "alerts (convertImages exec st) = alerts st"
    and "trim (keyword (images st ! k)) = []"
    and "2 \<le> count_list (name (file_item (images st ! k))) CHR ''.''"
  shows "outputName (images (convertImages exec st) ! k)
           = Some (beforeFirstDot (name (file_item (images st ! k))) @ ''.'' @ outputFormat st)
       \<and> (\<exists>z data. zipUrl (convertImages exec st) = Some z
             \<and> (beforeLastDot (name (file_item (images st ! k))) @ ''.'' @ outputFormat st, data)
                 \<in> set z)
       \<and> beforeFirstDot (name (file_item (images st ! k)))
           \<noteq> beforeLastDot (name (file_item (images st ! k)))
       \<and> beforeFirstDot (name (file_item (images st ! k))) @ ''.'' @ outputFormat st
           \<noteq> beforeLastDot (name (file_item (images st ! k))) @ ''.'' @ outputFormat st"
proof -
  let ?n = "name (file_item (images st ! k))"
  from assms(2) obtain fs0 where f: "ffmpeg st = Some fs0"
    by auto
  from run_ok_item [OF assms(1) f assms(3,4)] obtain data z where
    d: "images (convertImages exec st) ! k = doneItem (outputFormat st) data (images st ! k)" and
    z: "zipUrl (convertImages exec st) = Some z"
       "fst ` set z = (\<lambda>x. entryName x (outputFormat st)) ` set (images st)"
    by blast
  from assms(3) have "entryName (images st ! k) (outputFormat st) \<in> fst ` set z"
    unfolding z(2) by simp
  then obtain p where "entryName (images st ! k) (outputFormat st) = fst p" "p \<in> set z"
    by (rule imageE)
  then obtain data' where "(entryName (images st ! k) (outputFormat st), data') \<in> set z"
    by (cases p) simp
  then have e: "(beforeLastDot ?n @ ''.'' @ outputFormat st, data') \<in> set z"
    by (simp add: entryName_def originalName_eq)
  have n: "beforeFirstDot ?n \<noteq> beforeLastDot ?n"
    using stems_differ [OF assms(6)]
    by (simp add: beforeFirstDot_def beforeLastDot_def join_butlast_split)
  have "finalName (images st ! k) = beforeFirstDot ?n"
    using assms(5) by (simp only: finalName_eq) simp
  then have o: "outputName (images (convertImages exec st) ! k)
           = Some (beforeFirstDot ?n @ ''.'' @ outputFormat st)"
    unfolding d doneItem_fields downloadName_def by (simp only:)
  have 2: "\<exists>z data. zipUrl (convertImages exec st) = Some z
             \<and> (beforeLastDot ?n @ ''.'' @ outputFormat st, data) \<in> set z"
    using z(1) e by blast
  have 4: "beforeFirstDot ?n @ ''.'' @ outputFormat st \<noteq> beforeLastDot ?n @ ''.'' @ outputFormat st"
    using n by simp
  show ?thesis
    by (intro conjI o 2 n 4)
qed

text \<open>
  The theorem on \<open>a.b.png\<close> converted to \<open>webp\<close>: the download is \<open>a.webp\<close>, the entry of
  the archive is \<open>a.b.webp\<close>.
\<close>

theorem download_and_entry_stems_differ_witness:
  "loaded dottedPhoto \<and> ffmpeg dottedPhoto \<noteq> None \<and> 0 < length (images dottedPhoto)
   \<and> alerts (convertImages okEngine dottedPhoto) = alerts dottedPhoto
   \<and> trim (keyword (images dottedPhoto ! 0)) = []
   \<and> 2 \<le> count_list (name (file_item (images dottedPhoto ! 0))) CHR ''.''
   \<and> name (file_item (images dottedPhoto ! 0)) = ''a.b.png''
   \<and> outputName (images (convertImages okEngine dottedPhoto) ! 0) = Some ''a.webp''
   \<and> zipUrl (convertImages okEngine dottedPhoto) = Some [(''a.b.webp'', ''converted'')]"
proof -
  have h: "loaded dottedPhoto" "ffmpeg dottedPhoto \<noteq> None" "0 < length (images dottedPhoto)"
    "alerts (convertImages okEngine dottedPhoto) = alerts dottedPhoto"
    "trim (keyword (images dottedPhoto ! 0)) = []"
    "2 \<le> count_list (name (file_item (images dottedPhoto ! 0))) CHR ''.''"
    by code_simp+
  have v: "name (file_item (images dottedPhoto ! 0)) = ''a.b.png''"
    "outputFormat dottedPhoto = ''webp''"
    "beforeFirstDot ''a.b.png'' = ''a''"
    "zipUrl (convertImages okEngine dottedPhoto) = Some [(''a.b.webp'', ''converted'')]"
    by code_simp+
  have ne: "images dottedPhoto \<noteq> []"
    by code_simp
  from download_and_entry_stems_differ [OF h] show ?thesis
    by (simp add: h v ne)
qed

section \<open>A run in which the engine fails\<close>





text \<open>
  Claim C6, where the code departs from it. The two \<open>deleteFile\<close> calls come after the
  invocation and the read, inside the \<open>try\<close>, so an exception skips them. When the
  invocation for the first item of the list throws, the run ends with the file system
  as \<open>writeFile\<close> left it: the input file of the item is still there, with its content.
\<close>

theorem engine_failure_leaves_input_file:
  assumes "loaded st" and "ffmpeg st = Some fs0" and "images st = img # rest"
    and "exec (imageArgs img (outputFormat st) (quality st))
           (writeFile (inputName img) (content (file_item img)) fs0) = None"
  shows "ffmpeg (convertImages exec st)
           = Some (writeFile (inputName img) (content (file_item img)) fs0)
       \<and> readFile (inputName img) (writeFile (inputName img) (content (file_item img)) fs0)
           = Some (content (file_item img))"
proof -
  have "processItem exec (outputFormat st) (quality st) 0 (startRun st fs0)
          = Inl ((startRun st fs0)
                   \<lparr>updatedImages := (img\<lparr>status := Processing\<rparr>) # rest,
                    published := [(img\<lparr>status := Processing\<rparr>) # rest],
                    engineFs := writeFile (inputName img) (content (file_item img)) fs0\<rparr>)"
    using assms(3,4) by (simp add: processItem_def startRun_def Let_def)
  then have "convertLoop exec (outputFormat st) (quality st) 0 (startRun st fs0)
          = Inl ((startRun st fs0)
                   \<lparr>updatedImages := (img\<lparr>status := Processing\<rparr>) # rest,
                    published := [(img\<lparr>status := Processing\<rparr>) # rest],
                    engineFs := writeFile (inputName img) (content (file_item img)) fs0\<rparr>)"
    using assms(3) by (subst convertLoop.simps) (simp add: startRun_def)
  with assms(1,2,3) show ?thesis
    by (simp add: convertImages_def readFile_def writeFile_def)
qed

text \<open>
  The theorem on three photos and an engine that throws on the first: after the run the
  engine still holds \<open>input_x1\<close>.
\<close>

theorem engine_failure_leaves_input_file_witness:
  "loaded threePhotos \<and> ffmpeg threePhotos = Some Map.empty
   \<and> images threePhotos = newItem (upload1080 ''a.png'' ''x1'')
        # [newItem (upload1080 ''b.png'' ''x2''), newItem (upload1080 ''c.png'' ''x3'')]
   \<and> failOn ''input_x1'' (imageArgs (newItem (upload1080 ''a.png'' ''x1'')) ''webp'' 100)
        (writeFile ''input_x1'' ''PNG'' Map.empty) = None
   \<and> (case ffmpeg (convertImages (failOn ''input_x1'') threePhotos) of
         None \<Rightarrow> None
       | Some v \<Rightarrow> readFile ''input_x1'' v) = Some ''PNG''"
proof -
  let ?img = "newItem (upload1080 ''a.png'' ''x1'')"
  have h: "loaded threePhotos" "ffmpeg threePhotos = Some Map.empty"
    "images threePhotos = ?img
        # [newItem (upload1080 ''b.png'' ''x2''), newItem (upload1080 ''c.png'' ''x3'')]"
    by (simp_all add: threePhotos_def readyState_def initialState_def processFiles_def
          setImages_def)
  have v: "outputFormat threePhotos = ''webp''" "quality threePhotos = 100"
    by (simp_all add: threePhotos_def readyState_def initialState_def processFiles_def
          setImages_def)
  have n: "inputName ?img = ''input_x1''" "content (file_item ?img) = ''PNG''"
    by (simp_all add: inputName_def newItem_def upload1080_def)
  have e: "failOn ''input_x1'' (imageArgs ?img ''webp'' 100)
             (writeFile ''input_x1'' ''PNG'' Map.empty) = None"
    by (simp add: failOn_def imageArgs_def n)
  from engine_failure_leaves_input_file [OF h, of "failOn ''input_x1''"] e
  show ?thesis
    by (simp add: h v n)
qed

section \<open>The statuses over a session\<close>

lemma item_step_status:
  "item_step x y \<Longrightarrow> (status y = Idle \<longrightarrow> status x = Idle) \<and> (status y = Error \<longrightarrow> status x = Error)"
  by (auto simp: item_step_def)

lemma item_step_map:
  assumes "\<And>x. id_item (f x) = id_item x \<and> status (f x) = status x"
  shows "list_all2 item_step s (map f s)"
  using assms by (simp add: list_all2_conv_all_nth item_step_def)

lemma setImages_history:
  assumes "snapshot_step (images st) v"
  shows "\<exists>new. rendered (setImages v st) = rendered st @ new
           \<and> successively snapshot_step (images st # new)
           \<and> last (images st # new) = images (setImages v st)"
  using assms by (intro exI [of _ "[v]"]) (simp add: setImages_def)

lemma processFiles_step: "snapshot_step s (s @ map newItem files)"
  by (simp add: snapshot_step_def list_all_iff newItem_def split: prod.splits)

lemma removeImage_step: "snapshot_step s (filter (\<lambda>x. id_item x \<noteq> i) s)"
proof (cases "\<exists>x \<in> set s. id_item x = i")
  case True
  then show ?thesis
    unfolding snapshot_step_def by blast
next
  case False
  then have "filter (\<lambda>x. id_item x \<noteq> i) s = s"
    by (intro filter_True) auto
  then show ?thesis
    by (simp add: snapshot_step_def list_all2_conv_all_nth item_step_refl)
qed

lemma keyword_step:
  "snapshot_step s (map (\<lambda>img. if id_item img = i then img\<lparr>keyword := v\<rparr> else img) s)"
  unfolding snapshot_step_def by (intro disjI2 item_step_map) simp

lemma dimension_step:
  "snapshot_step s (map (\<lambda>img. if id_item img \<noteq> i then img else changeDimension d v img) s)"
  unfolding snapshot_step_def
  by (intro disjI2 item_step_map) (cases d; simp add: changeDimension_def)

lemma item_steps_snapshot:
  "successively (list_all2 item_step) xs \<Longrightarrow> successively snapshot_step xs"
  by (erule successively_mono) (simp add: snapshot_step_def)

lemma convertImages_history:
  "\<exists>new. rendered (convertImages exec st) = rendered st @ new
     \<and> successively snapshot_step (images st # new)
     \<and> last (images st # new) = images (convertImages exec st)"
proof (cases "\<not> loaded st \<or> ffmpeg st = None \<or> images st = []")
  case True
  then have "convertImages exec st = st"
    by (auto simp: convertImages_def)
  then show ?thesis
    by (intro exI [of _ "[]"]) simp
next
  case False
  then obtain fs0 where f: "ffmpeg st = Some fs0"
    by auto
  define F where "F = (case convertLoop exec (outputFormat st) (quality st) 0 (startRun st fs0) of
                         Inl E \<Rightarrow> E | Inr R' \<Rightarrow> R')"
  from convertLoop_published [OF F_def] obtain new where
    n: "published F = new" "successively (list_all2 item_step) (images st # new)"
       "last (images st # new) = updatedImages F"
    by (auto simp: startRun_def)
  have "rendered (convertImages exec st) = rendered st @ published F
      \<and> images (convertImages exec st) = updatedImages F"
    using False f unfolding F_def by (auto simp: convertImages_def split: sum.splits)
  with n item_steps_snapshot [OF n(2)] show ?thesis
    by (intro exI [of _ new]) simp
qed

lemma applyOp_history:
  "\<exists>new. rendered (applyOp op st) = rendered st @ new
     \<and> successively snapshot_step (images st # new)
     \<and> last (images st # new) = images (applyOp op st)"
proof (cases op)
  case (Enqueue files)
  then show ?thesis
    using setImages_history [OF processFiles_step] by (simp add: processFiles_def)
next
  case (Tag i v)
  then show ?thesis
    using setImages_history [OF keyword_step] by (simp add: handleKeywordChange_def)
next
  case (Resize i d v)
  then show ?thesis
    using setImages_history [OF dimension_step] by (simp add: handleDimensionChange_def)
next
  case (Convert exec)
  then show ?thesis
    using convertImages_history by simp
next
  case (Discard i)
  then show ?thesis
    using setImages_history [OF removeImage_step] by (simp add: removeImage_def)
qed

lemma runOps_history:
  "\<exists>new. rendered (runOps ops st) = rendered st @ new
     \<and> successively snapshot_step (images st # new)
     \<and> last (images st # new) = images (runOps ops st)"
proof (induction ops arbitrary: st)
  case Nil
  show ?case
    by (intro exI [of _ "[]"]) (simp add: runOps_def)
next
  case (Cons op ops)
  from applyOp_history [of op st] obtain new1 where
    n1: "rendered (applyOp op st) = rendered st @ new1"
        "successively snapshot_step (images st # new1)"
        "last (images st # new1) = images (applyOp op st)"
    by blast
  from Cons.IH [of "applyOp op st"] obtain new2 where
    n2: "rendered (runOps ops (applyOp op st)) = rendered (applyOp op st) @ new2"
        "successively snapshot_step (images (applyOp op st) # new2)"
        "last (images (applyOp op st) # new2) = images (runOps ops (applyOp op st))"
    by blast
  have r: "runOps (op # ops) st = runOps ops (applyOp op st)"
    by (simp add: runOps_def)
  have "successively snapshot_step (images st # new1 @ new2)"
    using n1 n2 by (intro successively_join) simp_all
  moreover have "last (images st # new1 @ new2) = images (runOps (op # ops) st)"
    using n1(3) n2(3) unfolding r by (cases new2) (simp_all add: last_append)
  moreover have "rendered (runOps (op # ops) st) = rendered st @ new1 @ new2"
    using n1(1) n2(1) unfolding r by simp
  ultimately show ?case
    by blast
qed

lemma snapshot_step_no_error:
  assumes "snapshot_step s s'" and "\<forall>x \<in> set s. status x \<noteq> Error"
  shows "\<forall>x \<in> set s'. status x \<noteq> Error"
proof
  fix y
  assume y: "y \<in> set s'"
  from assms(1) have
    "(take (length s) s' = s \<and> list_all (\<lambda>x. status x = Idle) (drop (length s) s'))
     \<or> (\<exists>x \<in> set s. s' = filter (\<lambda>y. id_item y \<noteq> id_item x) s)
     \<or> list_all2 item_step s s'"
    unfolding snapshot_step_def .
  then show "status y \<noteq> Error"
  proof (elim disjE conjE bexE)
    assume a: "take (length s) s' = s" "list_all (\<lambda>x. status x = Idle) (drop (length s) s')"
    from y have "y \<in> set (take (length s) s') \<or> y \<in> set (drop (length s) s')"
      by (metis Un_iff append_take_drop_id set_append)
    with a assms(2) show ?thesis
      by (auto simp: list_all_iff)
  next
    fix x
    assume "s' = filter (\<lambda>y. id_item y \<noteq> id_item x) s"
    with y assms(2) show ?thesis
      by simp
  next
    assume c: "list_all2 item_step s s'"
    from y obtain k where k: "k < length s'" "s' ! k = y"
      by (auto simp: in_set_conv_nth)
    with c have "item_step (s ! k) y" "k < length s"
      by (auto simp: list_all2_conv_all_nth)
    with assms(2) show ?thesis
      using item_step_status nth_mem by metis
  qed
qed

lemma history_no_error:
  "successively snapshot_step (s # new) \<Longrightarrow> \<forall>x \<in> set s. status x \<noteq> Error \<Longrightarrow>
     \<forall>t \<in> set new. \<forall>x \<in> set t. status x \<noteq> Error"
proof (induction new arbitrary: s)
  case Nil
  show ?case by simp
next
  case (Cons t new)
  from Cons.prems have "snapshot_step s t" "successively snapshot_step (t # new)"
    by simp_all
  with Cons.prems(2) Cons.IH [of t] snapshot_step_no_error [of s t] show ?case
    by simp
qed

text \<open>
  Claim C7, as the code has it. Over any session of uploads, keyword and dimension edits,
  conversion runs and discards, started in any state, each value that \<open>images\<close> takes
  comes from the one before by a \<open>snapshot_step\<close>: idle items are appended, or the items of
  one identifier are removed, or every item stays in its place, keeps its identifier,
  and its status stays as it is, becomes \<open>processing\<close>, or goes from \<open>processing\<close> to
  \<open>done\<close>. So no item that is kept ever becomes \<open>idle\<close> or \<open>error\<close> unless it was so before,
  and when no item is in \<open>error\<close> at the start, none ever is. An item may go from \<open>done\<close>
  back to \<open>processing\<close>: each conversion run does that to every item it reaches.
\<close>

theorem status_history:
  "(\<exists>new. rendered (runOps ops st) = rendered st @ new
       \<and> successively snapshot_step (images st # new)
       \<and> ((\<forall>x \<in> set (images st). status x \<noteq> Error) \<longrightarrow>
            (\<forall>t \<in> set new. \<forall>x \<in> set t. status x \<noteq> Error)))
   \<and> (\<forall>x y. item_step x y \<longrightarrow>
         (status y = Idle \<longrightarrow> status x = Idle) \<and> (status y = Error \<longrightarrow> status x = Error))"
proof -
  from runOps_history [of ops st] obtain new where
    n: "rendered (runOps ops st) = rendered st @ new"
       "successively snapshot_step (images st # new)"
    by blast
  with history_no_error [OF n(2)] have
    "\<exists>new. rendered (runOps ops st) = rendered st @ new
       \<and> successively snapshot_step (images st # new)
       \<and> ((\<forall>x \<in> set (images st). status x \<noteq> Error) \<longrightarrow>
            (\<forall>t \<in> set new. \<forall>x \<in> set t. status x \<noteq> Error))"
    by blast
  with item_step_status show ?thesis
    by blast
qed

text \<open>
  The theorem on a session that uploads a photo, converts it and discards it: the list
  is \<open>idle\<close>, \<open>processing\<close>, \<open>done\<close>, then empty.
\<close>

theorem status_history_witness:
  "successively snapshot_step
     ([] # rendered (runOps [Enqueue [photoUpload], Convert okEngine, Discard ''x1''] readyState))
   \<and> map (map status)
       (rendered (runOps [Enqueue [photoUpload], Convert okEngine, Discard ''x1''] readyState))
       = [[Idle], [Processing], [Done], []]"
proof -
  let ?ops = "[Enqueue [photoUpload], Convert okEngine, Discard ''x1'']"
  have r: "rendered readyState = []" "images readyState = []"
    by (simp_all add: readyState_def initialState_def)
  have m: "map (map status) (rendered (runOps ?ops readyState)) = [[Idle], [Processing], [Done], []]"
    by code_simp
  from status_history [of ?ops readyState] m show ?thesis
    by (auto simp: r)
qed

text \<open>
  Claim C7 as it is written fails: a second conversion run takes the item that the first
  run left \<open>done\<close> back to \<open>processing\<close>.
\<close>

theorem done_returns_to_processing_counterexample:
  "map (map status)
     (rendered (runOps [Enqueue [photoUpload], Convert okEngine, Convert okEngine] readyState))
     = [[Idle], [Processing], [Done], [Processing], [Done]]"
  by code_simp

end
